theory Spec2Isabelle
  imports Main "HOL-Library.Sublist"
begin

section \<open>The chat client of main.go\<close>

text \<open>
  The program is a Bubble Tea application: a value of type \<open>model\<close>, an \<open>Update\<close>
  function that maps a message and a model to a new model and a command, and the runtime
  that runs commands concurrently and feeds the messages they return back into
  \<open>Update\<close>, one at a time. Each prompt starts a goroutine that pushes the text of
  the response chunks into a fresh unbuffered channel; the command \<open>readPart\<close> receives
  one value from that channel and returns it as a \<open>streamMsg\<close>.

  The model below keeps the handlers as functions on the \<open>model\<close> record and the
  runtime (channels, running commands, messages waiting for the event loop) as a step
  function on a \<open>sys\<close> record, so that every interleaving of key presses, channel
  receives and message deliveries is a list of events.
\<close>

subsection \<open>Constants\<close>

definition GAP :: string where
  "GAP = [CHR 0x0A, CHR 0x0A]"

definition RoleUser :: string where
  "RoleUser = ''user''"

definition RoleModel :: string where
  "RoleModel = ''model''"

subsection \<open>Run-time panics\<close>

datatype panic = IndexOutOfRange | NilDereference

subsection \<open>Response chunks of the remote service\<close>

text \<open>
  The parts of the genai types that main.go reads. A Go pointer that may be nil is an
  \<open>option\<close>; a slice is a list.
\<close>

datatype genai_Part = Part (Text: string)

datatype genai_Content = Content (Parts: "genai_Part option list") (Role: string)

datatype genai_Candidate = Candidate (CandidateContent: "genai_Content option")

datatype genai_Response = GenerateContentResponse (Candidates: "genai_Candidate option list")

type_synonym stream = "genai_Response option list"

definition NewContentFromText :: "string \<Rightarrow> string \<Rightarrow> genai_Content" where
  "NewContentFromText t r = Content [Some (Part t)] r"

text \<open>
  \<open>chunk.Candidates[0].Content.Parts[0].Text\<close> for a chunk that is not nil: indexing an
  empty slice and dereferencing a nil pointer panic.
\<close>

definition chunkText :: "genai_Response \<Rightarrow> panic + string" where
  "chunkText chunk =
     (case Candidates chunk of
        [] \<Rightarrow> Inl IndexOutOfRange
      | cand # _ \<Rightarrow>
          (case cand of
             None \<Rightarrow> Inl NilDereference
           | Some c \<Rightarrow>
               (case CandidateContent c of
                  None \<Rightarrow> Inl NilDereference
                | Some ct \<Rightarrow>
                    (case Parts ct of
                       [] \<Rightarrow> Inl IndexOutOfRange
                     | p # _ \<Rightarrow>
                         (case p of
                            None \<Rightarrow> Inl NilDereference
                          | Some pt \<Rightarrow> Inr (Text pt))))))"

text \<open>
  The producer goroutine of \<open>keyEnter\<close>: it ranges over the stream, skips a nil chunk,
  pushes the text of every other chunk into the channel in order, and closes the channel
  when the stream ends. The error that the iterator yields beside each chunk is discarded
  (\<open>for chunk, _ := range stream\<close>). The result is the list of parts the goroutine
  pushes and how its loop ends: \<open>None\<close> when it reaches \<open>close(parts)\<close>,
  \<open>Some e\<close> when it panics.
\<close>

fun pushed :: "stream \<Rightarrow> string list \<times> panic option" where
  "pushed [] = ([], None)"
| "pushed (None # cs) = pushed cs"
| "pushed (Some chunk # cs) =
     (case chunkText chunk of
        Inl e \<Rightarrow> ([], Some e)
      | Inr part \<Rightarrow> (case pushed cs of (ps, r) \<Rightarrow> (part # ps, r)))"

subsection \<open>The widgets\<close>

text \<open>
  The text area and the viewport are components of the Bubbles library. Only what
  main.go reads and writes is kept: the value and the size of the text area, and the
  size, the content and the scroll position of the viewport. The content is kept as the
  arguments of the lipgloss rendering (the width and the joined text) rather than as the
  wrapped text.
\<close>

record textarea_Model =
  taValue :: string
  taWidth :: int
  taHeight :: int

datatype vp_content = Blank | Rendered int string

record viewport_Model =
  Width :: int
  Height :: int
  vpContent :: vp_content
  atBottom :: bool

type_synonym lipgloss_Style = "string \<Rightarrow> string"

text \<open>A style is used only through its \<open>Render\<close> method, so it is that function.\<close>

definition plain :: lipgloss_Style where
  "plain s = s"

definition lipgloss_Height :: "string \<Rightarrow> int" where
  "lipgloss_Height s = int (length (filter (\<lambda>c. c = CHR 0x0A) s)) + 1"

fun Join :: "string list \<Rightarrow> string \<Rightarrow> string" where
  "Join [] sep = []"
| "Join [x] sep = x"
| "Join (x # y # ys) sep = x @ sep @ Join (y # ys) sep"

definition SetContent :: "vp_content \<Rightarrow> viewport_Model \<Rightarrow> viewport_Model" where
  "SetContent c vp = vp\<lparr>vpContent := c\<rparr>"

definition GotoBottom :: "viewport_Model \<Rightarrow> viewport_Model" where
  "GotoBottom vp = vp\<lparr>atBottom := True\<rparr>"

definition Reset :: "textarea_Model \<Rightarrow> textarea_Model" where
  "Reset ta = ta\<lparr>taValue := []\<rparr>"

definition SetWidth :: "int \<Rightarrow> textarea_Model \<Rightarrow> textarea_Model" where
  "SetWidth w ta = ta\<lparr>taWidth := w\<rparr>"

subsection \<open>Messages, commands and the model\<close>

datatype key = KeyEsc | KeyCtrlC | KeyEnter | KeyRunes string

text \<open>\<open>StreamMsg index part\<close> is the struct \<open>streamMsg\<close>.\<close>

datatype msg =
    WindowSizeMsg int int
  | KeyMsg key
  | StreamMsg int string
  | ErrMsg string
  | OtherMsg

text \<open>
  A \<open>tea.Cmd\<close> is nil, \<open>tea.Quit\<close>, the batch of the widgets' commands, or a
  \<open>readPart\<close> closure, which is the channel and the index it captured.
\<close>

datatype cmd = Nil | Quit | Batch | ReadPart nat int

text \<open>
  The fields \<open>chat\<close>, \<open>ctx\<close>, \<open>err\<close> and \<open>log\<close> are set once by
  \<open>initialModel\<close> and never written again; the remote service behind \<open>chat\<close> is
  the chunk stream that comes with each enter key below.
\<close>

record model =
  viewport :: viewport_Model
  history :: "genai_Content list"
  display :: "string list"
  textarea :: textarea_Model
  promptStyle :: lipgloss_Style
  chatStyle :: lipgloss_Style
  "next" :: cmd

definition initialModel :: "lipgloss_Style \<Rightarrow> lipgloss_Style \<Rightarrow> model" where
  "initialModel ps cs =
     \<lparr>viewport = \<lparr>Width = 40, Height = 5, vpContent = Blank, atBottom = True\<rparr>,
      history = [],
      display = [],
      textarea = \<lparr>taValue = [], taWidth = 40, taHeight = 2\<rparr>,
      promptStyle = ps,
      chatStyle = cs,
      next = Nil\<rparr>"

text \<open>
  The widgets' own \<open>Update\<close>: typed characters go to the end of the text area (the
  enter key inserts nothing, \<open>InsertNewline\<close> is disabled); no message modelled here
  scrolls the viewport.
\<close>

definition textarea_Update :: "msg \<Rightarrow> textarea_Model \<Rightarrow> textarea_Model" where
  "textarea_Update m ta =
     (case m of KeyMsg (KeyRunes s) \<Rightarrow> ta\<lparr>taValue := taValue ta @ s\<rparr> | _ \<Rightarrow> ta)"

definition viewport_Update :: "msg \<Rightarrow> viewport_Model \<Rightarrow> viewport_Model" where
  "viewport_Update m vp = vp"

definition renderDisplay :: "model \<Rightarrow> vp_content" where
  "renderDisplay m = Rendered (Width (viewport m)) (Join (display m) [CHR 0x0A])"

subsection \<open>The handlers\<close>

definition keyEsc :: "model \<Rightarrow> model \<times> cmd" where
  "keyEsc m = (m, Quit)"

definition errMsg :: "model \<Rightarrow> model \<times> cmd" where
  "errMsg m = (m, Nil)"

definition windowSizeMsg :: "int \<Rightarrow> int \<Rightarrow> model \<Rightarrow> model" where
  "windowSizeMsg w h m0 =
     (let m1 = m0\<lparr>viewport := (viewport m0)\<lparr>Width := w\<rparr>\<rparr>;
          m2 = m1\<lparr>textarea := SetWidth w (textarea m1)\<rparr>;
          m3 = m2\<lparr>viewport := (viewport m2)
                  \<lparr>Height := h - taHeight (textarea m2) - lipgloss_Height GAP\<rparr>\<rparr>;
          m4 = (if length (display m3) > 0
                then m3\<lparr>viewport := SetContent (renderDisplay m3) (viewport m3)\<rparr>
                else m3)
      in m4\<lparr>viewport := GotoBottom (viewport m4)\<rparr>)"

text \<open>
  \<open>keyEnter\<close>. The argument \<open>parts\<close> is the channel that \<open>make(chan string)\<close>
  returns. The goroutine that the handler starts on that channel is added to the system
  by \<open>step\<close> below.
\<close>

definition keyEnter :: "nat \<Rightarrow> model \<Rightarrow> model \<times> cmd" where
  "keyEnter parts m0 =
     (let prompt = taValue (textarea m0);
          m1 = m0\<lparr>history := history m0 @ [NewContentFromText prompt RoleUser]\<rparr>;
          m2 = m1\<lparr>display := display m1 @
                  [chatStyle m1 ''? '' @ promptStyle m1 (taValue (textarea m1))]\<rparr>;
          m3 = m2\<lparr>viewport := SetContent (renderDisplay m2) (viewport m2)\<rparr>;
          index = int (length (display m3));
          readPart = ReadPart parts index;
          m4 = m3\<lparr>textarea := Reset (textarea m3)\<rparr>;
          m5 = m4\<lparr>viewport := GotoBottom (viewport m4)\<rparr>;
          m6 = m5\<lparr>next := readPart\<rparr>
      in (m6, next m6))"

text \<open>
  \<open>streamMsg\<close>. \<open>m.display[msg.index] += msg.part\<close> panics when the index is
  negative or not below the length.
\<close>

definition streamMsg :: "int \<Rightarrow> string \<Rightarrow> model \<Rightarrow> panic + model \<times> cmd" where
  "streamMsg index part m0 =
     (let m1 = (if index = int (length (display m0))
                then m0\<lparr>display := display m0 @ [chatStyle m0 ''> '']\<rparr>
                else m0)
      in if index < 0 \<or> int (length (display m1)) \<le> index then Inl IndexOutOfRange
         else
           let m2 = m1\<lparr>display := (display m1)[nat index := display m1 ! nat index @ part]\<rparr>;
               m3 = m2\<lparr>viewport := SetContent (renderDisplay m2) (viewport m2)\<rparr>;
               m4 = m3\<lparr>viewport := GotoBottom (viewport m3)\<rparr>
           in if next m4 = Nil then Inr (m4, Nil) else Inr (m4, next m4))"

definition Update :: "nat \<Rightarrow> msg \<Rightarrow> model \<Rightarrow> panic + model \<times> cmd" where
  "Update parts m m0 =
     (let m1 = m0\<lparr>textarea := textarea_Update m (textarea m0)\<rparr>;
          m2 = m1\<lparr>viewport := viewport_Update m (viewport m1)\<rparr>
      in case m of
           WindowSizeMsg w h \<Rightarrow> Inr (windowSizeMsg w h m2, Batch)
         | KeyMsg k \<Rightarrow>
             (case k of
                KeyEsc \<Rightarrow> Inr (keyEsc m2)
              | KeyCtrlC \<Rightarrow> Inr (keyEsc m2)
              | KeyEnter \<Rightarrow> Inr (keyEnter parts m2)
              | KeyRunes s \<Rightarrow> Inr (m2, Batch))
         | StreamMsg i p \<Rightarrow> streamMsg i p m2
         | ErrMsg e \<Rightarrow> Inr (errMsg m2)
         | OtherMsg \<Rightarrow> Inr (m2, Batch))"

subsection \<open>The runtime\<close>

text \<open>
  \<open>chans\<close>: one entry per channel ever made, the parts its producer has still to push
  and the way its loop ends (the producer is blocked on its send while the list is not
  empty and no command receives from the channel).
  \<open>cmds\<close>: the \<open>readPart\<close> commands that are running, each blocked on the receive
  from its channel, as (channel, index).
  \<open>msgs\<close>: the \<open>streamMsg\<close> values that commands have returned and the event loop
  has not handled yet, as (index, part).
  \<open>quit\<close>: the program has left its event loop.
\<close>

record sys =
  mdl :: model
  chans :: "(string list \<times> panic option) list"
  cmds :: "(nat \<times> int) list"
  msgs :: "(int \<times> string) list"
  quit :: bool

definition init :: "lipgloss_Style \<Rightarrow> lipgloss_Style \<Rightarrow> sys" where
  "init ps cs = \<lparr>mdl = initialModel ps cs, chans = [], cmds = [], msgs = [], quit = False\<rparr>"

text \<open>
  \<open>Key k cs\<close>: a key press; \<open>cs\<close> is the chunk stream with which the remote service
  answers if the key sends a prompt.
  \<open>Recv k\<close>: the receive of the \<open>k\<close>-th running command completes.
  \<open>Handle k\<close>: the event loop takes the \<open>k\<close>-th waiting \<open>streamMsg\<close>.
\<close>

datatype event =
    Key key stream
  | Resize int int
  | Error string
  | Other
  | Recv nat
  | Handle nat

definition remove_nth :: "nat \<Rightarrow> 'a list \<Rightarrow> 'a list" where
  "remove_nth k xs = take k xs @ drop (Suc k) xs"

definition start :: "cmd \<Rightarrow> sys \<Rightarrow> sys" where
  "start c s =
     (case c of
        ReadPart ch i \<Rightarrow> s\<lparr>cmds := cmds s @ [(ch, i)]\<rparr>
      | Quit \<Rightarrow> s\<lparr>quit := True\<rparr>
      | _ \<Rightarrow> s)"

definition dispatch :: "msg \<Rightarrow> sys \<Rightarrow> panic + sys" where
  "dispatch m s =
     (case Update (length (chans s)) m (mdl s) of
        Inl e \<Rightarrow> Inl e
      | Inr (m', c) \<Rightarrow> Inr (start c (s\<lparr>mdl := m'\<rparr>)))"

text \<open>
  A receive on a channel whose producer has a part ready returns that part, and the
  command returns the \<open>streamMsg\<close>; on a closed channel the command returns nil, which
  the program drops. A panic of the producer ends the process; it is placed at the
  receive that would have taken the part of the offending chunk.
\<close>

definition recv :: "nat \<Rightarrow> sys \<Rightarrow> panic + sys" where
  "recv k s =
     (if k < length (cmds s) \<and> fst (cmds s ! k) < length (chans s) then
        (case cmds s ! k of (ch, i) \<Rightarrow>
           (case chans s ! ch of
              (p # ps, r) \<Rightarrow>
                Inr (s\<lparr>chans := (chans s)[ch := (ps, r)],
                       cmds := remove_nth k (cmds s),
                       msgs := msgs s @ [(i, p)]\<rparr>)
            | ([], None) \<Rightarrow> Inr (s\<lparr>cmds := remove_nth k (cmds s)\<rparr>)
            | ([], Some e) \<Rightarrow> Inl e))
      else Inr s)"

definition handle :: "nat \<Rightarrow> sys \<Rightarrow> panic + sys" where
  "handle k s =
     (if k < length (msgs s) then
        (case msgs s ! k of (i, p) \<Rightarrow>
           dispatch (StreamMsg i p) (s\<lparr>msgs := remove_nth k (msgs s)\<rparr>))
      else Inr s)"

definition step :: "event \<Rightarrow> sys \<Rightarrow> panic + sys" where
  "step ev s =
     (if quit s then Inr s
      else case ev of
        Key k cs \<Rightarrow>
          (case dispatch (KeyMsg k) s of
             Inl e \<Rightarrow> Inl e
           | Inr s' \<Rightarrow> Inr (if k = KeyEnter then s'\<lparr>chans := chans s' @ [pushed cs]\<rparr> else s'))
      | Resize w h \<Rightarrow> dispatch (WindowSizeMsg w h) s
      | Error e \<Rightarrow> dispatch (ErrMsg e) s
      | Other \<Rightarrow> dispatch OtherMsg s
      | Recv k \<Rightarrow> recv k s
      | Handle k \<Rightarrow> handle k s)"

fun run :: "event list \<Rightarrow> sys \<Rightarrow> panic + sys" where
  "run [] s = Inr s"
| "run (e # es) s = (case step e s of Inl p \<Rightarrow> Inl p | Inr s' \<Rightarrow> run es s')"

text \<open>A chunk whose first candidate holds the text \<open>t\<close>.\<close>

definition textChunk :: "string \<Rightarrow> genai_Response option" where
  "textChunk t = Some (GenerateContentResponse [Some (Candidate (Some (Content [Some (Part t)] RoleModel)))])"

subsection \<open>Schedules and predicates on states\<close>

text \<open>\<open>isEnter\<close>: the event is the enter key, that is, a prompt is submitted.\<close>

fun isEnter :: "event \<Rightarrow> bool" where
  "isEnter (Key KeyEnter cs) = True"
| "isEnter ev = False"

text \<open>
  The events of a stream that nothing interrupts, for \<open>n\<close> parts: the running command
  receives a part and the event loop handles the message, \<open>n\<close> times; the last receive
  finds the channel closed.
\<close>

fun readLoop :: "nat \<Rightarrow> event list" where
  "readLoop 0 = [Recv 0]"
| "readLoop (Suc n) = Recv 0 # Handle 0 # readLoop n"

text \<open>
  Every index held by a running command, by a waiting message or by \<open>next\<close> is at most
  the length of the transcript, and every channel held exists.
\<close>

definition inRange :: "sys \<Rightarrow> bool" where
  "inRange s =
     (list_all (\<lambda>(ch, i). ch < length (chans s) \<and> 0 \<le> i \<and> i \<le> int (length (display (mdl s))))
        (cmds s) \<and>
      list_all (\<lambda>(i, p). 0 \<le> i \<and> i \<le> int (length (display (mdl s)))) (msgs s) \<and>
      (case next (mdl s) of
         ReadPart ch i \<Rightarrow> ch < length (chans s) \<and> 0 \<le> i \<and> i \<le> int (length (display (mdl s)))
       | _ \<Rightarrow> True))"

text \<open>
  The producer of channel \<open>ch\<close> has a part to push, no running command receives from
  the channel, and the command that the model schedules after each fragment reads another
  channel.
\<close>

definition abandoned :: "nat \<Rightarrow> sys \<Rightarrow> bool" where
  "abandoned ch s =
     (ch < length (chans s) \<and> fst (chans s ! ch) \<noteq> [] \<and> ch \<notin> fst ` set (cmds s) \<and>
      (case next (mdl s) of ReadPart c i \<Rightarrow> c \<noteq> ch | _ \<Rightarrow> True))"

text \<open>
  The stream started last owns the entry at its index: \<open>chB\<close> and \<open>iB\<close> are its
  channel and index, \<open>P\<close> the parts of its producer. Every command on another channel
  and every waiting message from one carries a smaller index; the entry at \<open>iB\<close> does
  not exist yet, or it is the rendered \<open>> \<close> followed by parts from \<open>P\<close> only.
\<close>

definition owned :: "nat \<Rightarrow> int \<Rightarrow> string set \<Rightarrow> sys \<Rightarrow> bool" where
  "owned chB iB P s =
     (list_all (\<lambda>(ch, i). 0 \<le> i \<and> (if ch = chB then i = iB else i < iB)) (cmds s) \<and>
      list_all (\<lambda>(i, p). 0 \<le> i \<and> i \<le> iB \<and> (i < iB \<or> p \<in> P)) (msgs s) \<and>
      next (mdl s) = ReadPart chB iB \<and> chB < length (chans s) \<and>
      set (fst (chans s ! chB)) \<subseteq> P \<and>
      (int (length (display (mdl s))) = iB \<or>
       (int (length (display (mdl s))) = iB + 1 \<and>
        (\<exists>gs. gs \<noteq> [] \<and> set gs \<subseteq> P \<and>
           display (mdl s) ! nat iB = chatStyle (mdl s) ''> '' @ concat gs))))"

text \<open>The state after a list of events that does not panic.\<close>

definition after :: "event list \<Rightarrow> sys \<Rightarrow> sys" where
  "after evs s = (case run evs s of Inr s' \<Rightarrow> s' | Inl e \<Rightarrow> s)"

subsection \<open>Example states\<close>

text \<open>A model whose transcript holds one prompt and the start of its reply.\<close>

definition exampleModel :: model where
  "exampleModel = (initialModel plain plain)\<lparr>display := [''? hi'', ''> a'']\<rparr>"

text \<open>
  The scenario of the supersession: prompt A is answered with three fragments, the first
  one is delivered, then prompt B is submitted.
\<close>

definition streamA :: "stream" where
  "streamA = [textChunk ''F1'', textChunk ''F2'', textChunk ''F3'']"

definition streamB :: "stream" where
  "streamB = [textChunk ''G1'', textChunk ''G2'']"

definition initial :: sys where
  "initial = init plain plain"

definition supersede :: "event list" where
  "supersede = [Key (KeyRunes ''A'') [], Key KeyEnter streamA, Recv 0, Handle 0,
                Key (KeyRunes ''B'') [], Key KeyEnter streamB]"

definition typed :: "string \<Rightarrow> sys" where
  "typed t = after [Key (KeyRunes t) []] initial"

section \<open>What the handlers do to the model\<close>

lemmas widget_defs = textarea_Update_def viewport_Update_def renderDisplay_def SetContent_def
  GotoBottom_def Reset_def SetWidth_def

lemma streamMsg_Inr:
  assumes "streamMsg i p m = Inr (m', c)"
  shows "0 \<le> i" and "i \<le> int (length (display m))" and "c = next m" and "next m' = next m"
    and "history m' = history m" and "chatStyle m' = chatStyle m" and "promptStyle m' = promptStyle m"
    and "textarea m' = textarea m"
    and "display m' = (if i = int (length (display m)) then display m @ [chatStyle m ''> '' @ p]
                       else (display m)[nat i := display m ! nat i @ p])"
  using assms by (auto simp add: streamMsg_def Let_def widget_defs split: if_splits)

lemma streamMsg_ok:
  assumes "0 \<le> i" and "i \<le> int (length (display m))"
  shows "\<exists>m'. streamMsg i p m = Inr (m', next m)"
  using assms by (auto simp add: streamMsg_def Let_def)

lemma streamMsg_panics:
  assumes "i < 0 \<or> int (length (display m)) < i"
  shows "streamMsg i p m = Inl IndexOutOfRange"
  using assms by (auto simp add: streamMsg_def Let_def)

lemma keyEnter_eq:
  assumes "keyEnter parts m = (m', c)"
  shows "c = ReadPart parts (int (length (display m)) + 1)" and "next m' = c"
    and "history m' = history m @ [NewContentFromText (taValue (textarea m)) RoleUser]"
    and "display m' = display m @ [chatStyle m ''? '' @ promptStyle m (taValue (textarea m))]"
    and "chatStyle m' = chatStyle m" and "promptStyle m' = promptStyle m"
  using assms by (auto simp add: keyEnter_def Let_def widget_defs)

lemma windowSizeMsg_eq:
  "display (windowSizeMsg w h m) = display m" "history (windowSizeMsg w h m) = history m"
  "next (windowSizeMsg w h m) = next m" "chatStyle (windowSizeMsg w h m) = chatStyle m"
  "promptStyle (windowSizeMsg w h m) = promptStyle m"
  by (simp_all add: windowSizeMsg_def Let_def widget_defs)

lemma Update_StreamMsg:
  "Update parts (StreamMsg i p) m = streamMsg i p m"
  by (simp add: Update_def Let_def widget_defs)

lemma Update_KeyEnter:
  "Update parts (KeyMsg KeyEnter) m = Inr (keyEnter parts m)"
  by (simp add: Update_def Let_def widget_defs)

lemma Update_ErrMsg:
  "Update parts (ErrMsg e) m = Inr (m, Nil)"
  by (simp add: Update_def Let_def widget_defs errMsg_def)

lemma Update_other:
  assumes "Update parts msg m = Inr (m', c)" and "msg \<noteq> KeyMsg KeyEnter"
    and "\<forall>i p. msg \<noteq> StreamMsg i p"
  shows "display m' = display m" and "history m' = history m" and "next m' = next m"
    and "chatStyle m' = chatStyle m" and "promptStyle m' = promptStyle m"
    and "c = Nil \<or> c = Quit \<or> c = Batch"
  using assms
  by (auto simp add: Update_def Let_def widget_defs errMsg_def keyEsc_def windowSizeMsg_eq
      split: msg.splits key.splits)

section \<open>The transcript\<close>

text \<open>
  Claim C8, as the code has it. Handling a \<open>streamMsg\<close> with index \<open>i\<close> and part
  \<open>p\<close>: when \<open>i\<close> is within bounds the part is appended to the entry at \<open>i\<close>; when
  \<open>i\<close> is the length of the transcript, a new assistant entry (the rendered
  \<open>> \<close>) is created and the part appended to it; when \<open>i\<close> is beyond the length (or
  negative) the handler panics with an index out of range: it neither fails gracefully nor
  leaves the transcript alone.
\<close>

theorem streamMsg_extendEntry:
  "(0 \<le> i \<and> i < int (length (display m)) \<longrightarrow>
      (\<exists>m' c. streamMsg i p m = Inr (m', c) \<and>
         display m' = (display m)[nat i := display m ! nat i @ p])) \<and>
   (i = int (length (display m)) \<longrightarrow>
      (\<exists>m' c. streamMsg i p m = Inr (m', c) \<and>
         display m' = display m @ [chatStyle m ''> '' @ p])) \<and>
   (i < 0 \<or> int (length (display m)) < i \<longrightarrow> streamMsg i p m = Inl IndexOutOfRange)"
proof (intro conjI impI)
  assume a: "0 \<le> i \<and> i < int (length (display m))"
  then obtain m' where sm: "streamMsg i p m = Inr (m', next m)"
    using streamMsg_ok[of i m p] by auto
  from streamMsg_Inr(9)[OF sm] a
  have "display m' = (display m)[nat i := display m ! nat i @ p]" by simp
  with sm show "\<exists>m' c. streamMsg i p m = Inr (m', c) \<and>
         display m' = (display m)[nat i := display m ! nat i @ p]" by blast
next
  assume a: "i = int (length (display m))"
  then obtain m' where sm: "streamMsg i p m = Inr (m', next m)"
    using streamMsg_ok[of i m p] by auto
  from streamMsg_Inr(9)[OF sm] a
  have "display m' = display m @ [chatStyle m ''> '' @ p]" by simp
  with sm show "\<exists>m' c. streamMsg i p m = Inr (m', c) \<and>
         display m' = display m @ [chatStyle m ''> '' @ p]" by blast
next
  assume "i < 0 \<or> int (length (display m)) < i"
  then show "streamMsg i p m = Inl IndexOutOfRange" by (rule streamMsg_panics)
qed

text \<open>The three cases on a transcript of two entries: index 1, index 2 and index 3.\<close>

theorem streamMsg_extendEntry_witness:
  "(\<exists>m' c. streamMsg 1 ''b'' exampleModel = Inr (m', c) \<and> display m' = [''? hi'', ''> ab'']) \<and>
   (\<exists>m' c. streamMsg 2 ''b'' exampleModel = Inr (m', c) \<and>
      display m' = [''? hi'', ''> a'', ''> b'']) \<and>
   streamMsg 3 ''b'' exampleModel = Inl IndexOutOfRange"
  using streamMsg_extendEntry[of 1 exampleModel "''b''"]
        streamMsg_extendEntry[of 2 exampleModel "''b''"]
        streamMsg_extendEntry[of 3 exampleModel "''b''"]
  by (simp add: exampleModel_def initialModel_def plain_def)

text \<open>
  Claim C8 as stated fails: with two entries in the transcript, a \<open>streamMsg\<close> for
  index 3 makes the handler panic.
\<close>

theorem streamMsg_beyond_end_counterexample:
  "streamMsg 3 ''b'' exampleModel = Inl IndexOutOfRange"
  by (simp add: streamMsg_def exampleModel_def initialModel_def Let_def)

text \<open>
  What holds of the transcript under every handler: whenever \<open>Update\<close> returns, the
  transcript is at least as long as before, every entry that existed is a prefix of the
  entry now at the same index (so nothing is removed or reordered and indices are
  stable), and every entry other than the one at the index that a \<open>streamMsg\<close>
  carries is unchanged. Nothing here says that this index is the last one.
\<close>

lemma Update_append_only:
  assumes "Update parts msg m = Inr (m', c)"
  shows "length (display m) \<le> length (display m') \<and>
         (\<forall>j < length (display m). prefix (display m ! j) (display m' ! j)) \<and>
         (\<forall>j < length (display m). (\<forall>i p. msg = StreamMsg i p \<longrightarrow> i \<noteq> int j) \<longrightarrow>
              display m' ! j = display m ! j)"
proof (cases "\<exists>i p. msg = StreamMsg i p")
  case True
  then obtain i p where msg: "msg = StreamMsg i p" by blast
  with assms have sm: "streamMsg i p m = Inr (m', c)" by (simp add: Update_StreamMsg)
  note d = streamMsg_Inr(9)[OF sm] and lo = streamMsg_Inr(1)[OF sm]
  show ?thesis
  proof (cases "i = int (length (display m))")
    case True
    with d show ?thesis by (simp add: nth_append)
  next
    case False
    with d have d': "display m' = (display m)[nat i := display m ! nat i @ p]" by simp
    have "prefix (display m ! j) (display m' ! j)" if "j < length (display m)" for j
      using that by (cases "j = nat i") (simp_all add: d')
    moreover have "display m' ! j = display m ! j"
      if "j < length (display m)" and "i \<noteq> int j" for j
      using that lo by (auto simp add: d' nth_list_update)
    ultimately show ?thesis using msg by (simp add: d')
  qed
next
  case other: False
  show ?thesis
  proof (cases "msg = KeyMsg KeyEnter")
    case True
    with assms have "keyEnter parts m = (m', c)" by (simp add: Update_KeyEnter)
    from keyEnter_eq(4)[OF this] show ?thesis by (simp add: nth_append)
  next
    case False
    from Update_other(1)[OF assms False] other show ?thesis by simp
  qed
qed

text \<open>
  A fragment for index 1 of a transcript of two entries: the entry at 1 grows, the entry
  at 0 stays.
\<close>

lemma Update_append_only_example:
  "Update 0 (StreamMsg 1 ''b'') exampleModel =
     Inr (exampleModel\<lparr>display := [''? hi'', ''> ab''],
            viewport := \<lparr>Width = 40, Height = 5,
              vpContent = Rendered 40 (''? hi'' @ [CHR 0x0A] @ ''> ab''), atBottom = True\<rparr>\<rparr>, Nil) \<and>
   length (display exampleModel) \<le> 2 \<and>
   prefix (display exampleModel ! 0) ''? hi'' \<and> prefix (display exampleModel ! 1) ''> ab'' \<and>
   ''? hi'' = display exampleModel ! 0"
  using Update_append_only[of 0 "StreamMsg 1 ''b''" exampleModel
      "exampleModel\<lparr>display := [''? hi'', ''> ab''],
            viewport := \<lparr>Width = 40, Height = 5,
              vpContent = Rendered 40 (''? hi'' @ [CHR 0x0A] @ ''> ab''), atBottom = True\<rparr>\<rparr>" Nil]
  by (simp add: Update_def streamMsg_def exampleModel_def initialModel_def Let_def widget_defs)

section \<open>What a step does to the system\<close>

lemma start_fields:
  "chans (start c s) = chans s" "msgs (start c s) = msgs s" "mdl (start c s) = mdl s"
  "cmds (start c s) = cmds s @ (case c of ReadPart ch i \<Rightarrow> [(ch, i)] | _ \<Rightarrow> [])"
  "quit (start c s) = (quit s \<or> c = Quit)"
  by (simp_all add: start_def split: cmd.splits)

lemma dispatch_Inr:
  assumes "dispatch m s = Inr s'"
  obtains m' c where "Update (length (chans s)) m (mdl s) = Inr (m', c)"
    and "s' = start c (s\<lparr>mdl := m'\<rparr>)"
  using assms by (auto simp add: dispatch_def split: sum.splits)

lemma dispatch_fields:
  assumes "dispatch m s = Inr s'" and "Update (length (chans s)) m (mdl s) = Inr (m', c)"
  shows "chans s' = chans s" and "msgs s' = msgs s" and "mdl s' = m'"
    and "cmds s' = cmds s @ (case c of ReadPart ch i \<Rightarrow> [(ch, i)] | _ \<Rightarrow> [])"
    and "quit s' = (quit s \<or> c = Quit)"
  using assms by (auto simp add: dispatch_def start_fields)

lemma step_quit: "quit s \<Longrightarrow> step ev s = Inr s"
  by (simp add: step_def)

lemma run_quit: "quit s \<Longrightarrow> run evs s = Inr s"
  by (induction evs) (simp_all add: step_quit)

lemma run_append:
  "run (es @ fs) s = (case run es s of Inl e \<Rightarrow> Inl e | Inr s' \<Rightarrow> run fs s')"
  by (induction es arbitrary: s) (auto split: sum.splits)

text \<open>The enter key.\<close>

lemma step_Enter:
  assumes "\<not> quit s"
  shows "\<exists>s'. step (Key KeyEnter cs) s = Inr s' \<and> \<not> quit s' \<and>
           chans s' = chans s @ [pushed cs] \<and>
           cmds s' = cmds s @ [(length (chans s), int (length (display (mdl s))) + 1)] \<and>
           msgs s' = msgs s \<and>
           next (mdl s') = ReadPart (length (chans s)) (int (length (display (mdl s))) + 1) \<and>
           display (mdl s') = display (mdl s) @
             [chatStyle (mdl s) ''? '' @ promptStyle (mdl s) (taValue (textarea (mdl s)))] \<and>
           history (mdl s') = history (mdl s) @
             [NewContentFromText (taValue (textarea (mdl s))) RoleUser] \<and>
           chatStyle (mdl s') = chatStyle (mdl s) \<and> promptStyle (mdl s') = promptStyle (mdl s)"
proof -
  obtain m' c where ke: "keyEnter (length (chans s)) (mdl s) = (m', c)"
    by (cases "keyEnter (length (chans s)) (mdl s)")
  have up: "Update (length (chans s)) (KeyMsg KeyEnter) (mdl s) = Inr (m', c)"
    by (simp add: Update_KeyEnter ke)
  then have d: "dispatch (KeyMsg KeyEnter) s = Inr (start c (s\<lparr>mdl := m'\<rparr>))"
    by (simp add: dispatch_def)
  have st: "step (Key KeyEnter cs) s =
      Inr ((start c (s\<lparr>mdl := m'\<rparr>))\<lparr>chans := chans (start c (s\<lparr>mdl := m'\<rparr>)) @ [pushed cs]\<rparr>)"
    using assms by (simp add: step_def d)
  note f = dispatch_fields[OF d up] and k = keyEnter_eq[OF ke]
  show ?thesis
    unfolding st using assms f k by simp
qed

text \<open>Messages other than the enter key and stream messages.\<close>

lemma dispatch_other:
  assumes "dispatch m s = Inr s'" and "m \<noteq> KeyMsg KeyEnter" and "\<forall>i p. m \<noteq> StreamMsg i p"
  shows "chans s' = chans s" and "msgs s' = msgs s" and "cmds s' = cmds s"
    and "display (mdl s') = display (mdl s)" and "history (mdl s') = history (mdl s)"
    and "next (mdl s') = next (mdl s)" and "chatStyle (mdl s') = chatStyle (mdl s)"
    and "promptStyle (mdl s') = promptStyle (mdl s)"
proof -
  from assms(1) obtain m' c where up: "Update (length (chans s)) m (mdl s) = Inr (m', c)"
    and s': "s' = start c (s\<lparr>mdl := m'\<rparr>)" by (rule dispatch_Inr)
  note o = Update_other[OF up assms(2) assms(3)]
  from o(6) show "cmds s' = cmds s" by (auto simp add: s' start_fields)
  show "chans s' = chans s" "msgs s' = msgs s" by (simp_all add: s' start_fields)
  from o show "display (mdl s') = display (mdl s)" "history (mdl s') = history (mdl s)"
    "next (mdl s') = next (mdl s)" "chatStyle (mdl s') = chatStyle (mdl s)"
    "promptStyle (mdl s') = promptStyle (mdl s)"
    by (simp_all add: s' start_fields)
qed

lemma step_ui:
  assumes "step ev s = Inr s'" and "\<not> quit s" and "\<not> isEnter ev"
    and "\<forall>k. ev \<noteq> Recv k" and "\<forall>k. ev \<noteq> Handle k"
  shows "chans s' = chans s" and "msgs s' = msgs s" and "cmds s' = cmds s"
    and "display (mdl s') = display (mdl s)" and "history (mdl s') = history (mdl s)"
    and "next (mdl s') = next (mdl s)" and "chatStyle (mdl s') = chatStyle (mdl s)"
    and "promptStyle (mdl s') = promptStyle (mdl s)"
proof -
  have "\<exists>m. dispatch m s = Inr s' \<and> m \<noteq> KeyMsg KeyEnter \<and> (\<forall>i p. m \<noteq> StreamMsg i p)"
  proof (cases ev)
    case (Key k cs)
    with assms(3) have "k \<noteq> KeyEnter" by (cases k) auto
    with assms(1,2) Key have "dispatch (KeyMsg k) s = Inr s'"
      by (auto simp add: step_def split: sum.splits)
    with \<open>k \<noteq> KeyEnter\<close> show ?thesis by blast
  next
    case (Resize w h)
    with assms(1,2) show ?thesis by (auto simp add: step_def)
  next
    case (Error e)
    with assms(1,2) show ?thesis by (auto simp add: step_def)
  next
    case Other
    with assms(1,2) show ?thesis by (auto simp add: step_def)
  next
    case (Recv k)
    with assms(4) show ?thesis by simp
  next
    case (Handle k)
    with assms(5) show ?thesis by simp
  qed
  then obtain m where d: "dispatch m s = Inr s'" and n1: "m \<noteq> KeyMsg KeyEnter"
    and n2: "\<forall>i p. m \<noteq> StreamMsg i p" by blast
  note o = dispatch_other[OF d n1 n2]
  from o show "chans s' = chans s" "msgs s' = msgs s" "cmds s' = cmds s"
    "display (mdl s') = display (mdl s)" "history (mdl s') = history (mdl s)"
    "next (mdl s') = next (mdl s)" "chatStyle (mdl s') = chatStyle (mdl s)"
    "promptStyle (mdl s') = promptStyle (mdl s)" by simp_all
qed

text \<open>A receive.\<close>

lemma step_Recv:
  assumes "step (Recv k) s = Inr s'" and "\<not> quit s"
  shows "(s' = s \<and> \<not> (k < length (cmds s) \<and> fst (cmds s ! k) < length (chans s))) \<or>
         (\<exists>ch i. k < length (cmds s) \<and> cmds s ! k = (ch, i) \<and> ch < length (chans s) \<and>
            ((\<exists>p ps r. chans s ! ch = (p # ps, r) \<and>
                s' = s\<lparr>chans := (chans s)[ch := (ps, r)], cmds := remove_nth k (cmds s),
                       msgs := msgs s @ [(i, p)]\<rparr>) \<or>
             (chans s ! ch = ([], None) \<and> s' = s\<lparr>cmds := remove_nth k (cmds s)\<rparr>)))"
  using assms
  by (auto simp add: step_def recv_def split: if_splits prod.splits list.splits option.splits)

lemma step_Recv_part:
  assumes "\<not> quit s" and "k < length (cmds s)" and "cmds s ! k = (ch, i)"
    and "ch < length (chans s)" and "chans s ! ch = (p # ps, r)"
  shows "step (Recv k) s = Inr (s\<lparr>chans := (chans s)[ch := (ps, r)],
           cmds := remove_nth k (cmds s), msgs := msgs s @ [(i, p)]\<rparr>)"
  using assms by (simp add: step_def recv_def)

lemma step_Recv_closed:
  assumes "\<not> quit s" and "k < length (cmds s)" and "cmds s ! k = (ch, i)"
    and "ch < length (chans s)" and "chans s ! ch = ([], None)"
  shows "step (Recv k) s = Inr (s\<lparr>cmds := remove_nth k (cmds s)\<rparr>)"
  using assms by (simp add: step_def recv_def)

text \<open>The event loop takes a stream message.\<close>

lemma step_Handle:
  assumes "step (Handle k) s = Inr s'" and "\<not> quit s"
  shows "(s' = s \<and> \<not> k < length (msgs s)) \<or>
         (\<exists>i p. k < length (msgs s) \<and> msgs s ! k = (i, p) \<and> 0 \<le> i \<and>
            i \<le> int (length (display (mdl s))) \<and>
            chans s' = chans s \<and> msgs s' = remove_nth k (msgs s) \<and>
            cmds s' = cmds s @ (case next (mdl s) of ReadPart ch j \<Rightarrow> [(ch, j)] | _ \<Rightarrow> []) \<and>
            quit s' = (next (mdl s) = Quit) \<and>
            next (mdl s') = next (mdl s) \<and> history (mdl s') = history (mdl s) \<and>
            chatStyle (mdl s') = chatStyle (mdl s) \<and> promptStyle (mdl s') = promptStyle (mdl s) \<and>
            display (mdl s') =
              (if i = int (length (display (mdl s)))
               then display (mdl s) @ [chatStyle (mdl s) ''> '' @ p]
               else (display (mdl s))[nat i := display (mdl s) ! nat i @ p]))"
proof (cases "k < length (msgs s)")
  case False
  with assms show ?thesis by (simp add: step_def handle_def)
next
  case True
  obtain i p where ip: "msgs s ! k = (i, p)" by (cases "msgs s ! k")
  let ?s1 = "s\<lparr>msgs := remove_nth k (msgs s)\<rparr>"
  from assms True ip have d: "dispatch (StreamMsg i p) ?s1 = Inr s'"
    by (simp add: step_def handle_def)
  then obtain m' c where up: "Update (length (chans ?s1)) (StreamMsg i p) (mdl ?s1) = Inr (m', c)"
    by (rule dispatch_Inr)
  then have sm: "streamMsg i p (mdl s) = Inr (m', c)" by (simp add: Update_StreamMsg)
  note f = dispatch_fields[OF d up] and g = streamMsg_Inr[OF sm]
  from f g True ip assms(2) show ?thesis by simp
qed

lemma step_Handle_ok:
  assumes "\<not> quit s" and "k < length (msgs s)" and "msgs s ! k = (i, p)" and "0 \<le> i"
    and "i \<le> int (length (display (mdl s)))"
  shows "\<exists>s'. step (Handle k) s = Inr s'"
proof -
  from streamMsg_ok[OF assms(4,5)] obtain m' where
    "streamMsg i p (mdl s) = Inr (m', next (mdl s))" by blast
  with assms(1,2,3) show ?thesis
    by (simp add: step_def handle_def dispatch_def Update_StreamMsg)
qed

lemmas eval_defs = init_def initialModel_def step_def dispatch_def Update_def keyEnter_def
  streamMsg_def keyEsc_def errMsg_def windowSizeMsg_def start_def recv_def handle_def
  remove_nth_def widget_defs NewContentFromText_def textChunk_def chunkText_def plain_def
  Let_def after_def initial_def streamA_def streamB_def supersede_def typed_def

lemma isEnter_iff: "isEnter ev \<longleftrightarrow> (\<exists>cs. ev = Key KeyEnter cs)"
  by (cases ev rule: isEnter.cases) simp_all

lemma set_remove_nth: "set (remove_nth k xs) \<subseteq> set xs"
  by (auto simp add: remove_nth_def dest: in_set_takeD in_set_dropD)

lemma in_set_remove_nth: "x \<in> set (remove_nth k xs) \<Longrightarrow> x \<in> set xs"
  using set_remove_nth[of k xs] by blast

lemma list_all_remove_nth: "list_all P xs \<Longrightarrow> list_all P (remove_nth k xs)"
  using set_remove_nth[of k xs] by (auto simp add: list_all_iff)

text \<open>Every step falls under one of five descriptions.\<close>

lemma step_cases:
  assumes "step ev s = Inr s'"
  obtains
    (idle) "s' = s"
  | (enter) cs where "ev = Key KeyEnter cs" and "\<not> quit s"
  | (ui) "\<not> quit s" and "\<not> isEnter ev" and "\<forall>k. ev \<noteq> Recv k" and "\<forall>k. ev \<noteq> Handle k"
  | (recv) k where "ev = Recv k" and "\<not> quit s"
  | (handle) k where "ev = Handle k" and "\<not> quit s"
proof (cases "quit s")
  case True
  with assms have "s' = s" by (simp add: step_def)
  then show ?thesis by (rule idle)
next
  case nq: False
  show ?thesis
  proof (cases "isEnter ev")
    case True
    then obtain cs where "ev = Key KeyEnter cs" by (auto simp add: isEnter_iff)
    then show ?thesis using nq by (rule enter)
  next
    case ne: False
    show ?thesis
    proof (cases ev)
      case (Recv k)
      then show ?thesis using nq by (rule recv)
    next
      case (Handle k)
      then show ?thesis using nq by (rule handle)
    qed (use nq ne in \<open>auto intro: ui\<close>)
  qed
qed

subsection \<open>The abandoned producer\<close>

lemma abandoned_step:
  assumes "abandoned ch s" and "step ev s = Inr s'"
  shows "abandoned ch s' \<and> chans s' ! ch = chans s ! ch"
  using assms(2)
proof (cases rule: step_cases)
  case idle
  with assms(1) show ?thesis by simp
next
  case (enter cs)
  from step_Enter[OF enter(2), of cs] assms(2) enter(1)
  have "chans s' = chans s @ [pushed cs]"
    and "cmds s' = cmds s @ [(length (chans s), int (length (display (mdl s))) + 1)]"
    and "next (mdl s') = ReadPart (length (chans s)) (int (length (display (mdl s))) + 1)"
    by auto
  with assms(1) show ?thesis by (auto simp add: abandoned_def nth_append)
next
  case ui
  from step_ui[OF assms(2) ui] assms(1) show ?thesis by (simp add: abandoned_def)
next
  case (recv k)
  from step_Recv[OF assms(2)[unfolded recv(1)] recv(2)]
  show ?thesis
  proof (elim disjE exE conjE)
    assume "s' = s"
    with assms(1) show ?thesis by simp
  next
    fix c i p ps r
    assume k: "k < length (cmds s)" and c: "cmds s ! k = (c, i)"
      and s': "s' = s\<lparr>chans := (chans s)[c := (ps, r)], cmds := remove_nth k (cmds s),
                      msgs := msgs s @ [(i, p)]\<rparr>"
    from k c have "c \<in> fst ` set (cmds s)" by (metis fst_conv image_eqI nth_mem)
    with assms(1) have "c \<noteq> ch" by (auto simp add: abandoned_def)
    with assms(1) set_remove_nth[of k "cmds s"] show ?thesis
      by (auto simp add: abandoned_def s')
  next
    fix c i
    assume "s' = s\<lparr>cmds := remove_nth k (cmds s)\<rparr>"
    with assms(1) set_remove_nth[of k "cmds s"] show ?thesis
      by (auto simp add: abandoned_def)
  qed
next
  case (handle k)
  from step_Handle[OF assms(2)[unfolded handle(1)] handle(2)]
  show ?thesis
  proof (elim disjE exE conjE)
    assume "s' = s"
    with assms(1) show ?thesis by simp
  next
    fix i p
    assume "chans s' = chans s"
      and "cmds s' = cmds s @ (case next (mdl s) of ReadPart c j \<Rightarrow> [(c, j)] | _ \<Rightarrow> [])"
      and "next (mdl s') = next (mdl s)"
    with assms(1) show ?thesis
      by (auto simp add: abandoned_def split: cmd.splits)
  qed
qed

text \<open>
  Claim C7, as the code has it. A superseded producer is neither drained nor cancelled.
  Once no running command receives from its channel and the model schedules reads of
  another channel, that stays so after every list of events, and the producer's pending
  parts stay where they are: the goroutine remains blocked on its send for the rest of the
  execution.
\<close>

theorem abandoned_producer_stays_blocked:
  assumes "abandoned ch s" and "run evs s = Inr s'"
  shows "abandoned ch s' \<and> chans s' ! ch = chans s ! ch"
  using assms
proof (induction evs arbitrary: s)
  case Nil
  then show ?case by simp
next
  case (Cons ev evs)
  from Cons.prems(2) obtain s1 where s1: "step ev s = Inr s1" and r: "run evs s1 = Inr s'"
    by (auto split: sum.splits)
  from abandoned_step[OF Cons.prems(1) s1] Cons.IH[OF _ r] show ?case by simp
qed


text \<open>
  After the supersession scenario and the delivery of the stale fragment F2, the producer
  of channel 0 still has F3 to push; three more receive attempts and the whole of stream B
  later, it is still there.
\<close>

theorem abandoned_producer_stays_blocked_witness:
  "abandoned 0 (after (supersede @ [Recv 0, Handle 0]) initial) \<and>
   run [Recv 0, Handle 0, Recv 0, Handle 0, Recv 0, Recv 0, Recv 0]
     (after (supersede @ [Recv 0, Handle 0]) initial) =
   Inr (after (supersede @ [Recv 0, Handle 0, Recv 0, Handle 0, Recv 0, Handle 0, Recv 0, Recv 0, Recv 0]) initial) \<and>
   chans (after (supersede @ [Recv 0, Handle 0, Recv 0, Handle 0, Recv 0, Handle 0, Recv 0, Recv 0, Recv 0]) initial) =
     [([''F3''], None), ([], None)] \<and>
   cmds (after (supersede @ [Recv 0, Handle 0, Recv 0, Handle 0, Recv 0, Handle 0, Recv 0, Recv 0, Recv 0]) initial) = []"
  using abandoned_producer_stays_blocked[of 0 "after (supersede @ [Recv 0, Handle 0]) initial"
      "[Recv 0, Handle 0, Recv 0, Handle 0, Recv 0, Recv 0, Recv 0]"
      "after (supersede @ [Recv 0, Handle 0, Recv 0, Handle 0, Recv 0, Handle 0, Recv 0, Recv 0, Recv 0]) initial"]
  by (simp add: eval_defs abandoned_def)

text \<open>
  Claim C7 as stated fails: after prompt B and the delivery of the stale fragment, the
  producer of prompt A holds the part F3 and is abandoned, so by the theorem above it
  never pushes it and never reaches the close of its channel.
\<close>

theorem abandoned_producer_counterexample:
  "(case run (supersede @ [Recv 0, Handle 0]) initial of
      Inl e \<Rightarrow> False
    | Inr s \<Rightarrow> abandoned 0 s \<and> chans s ! 0 = ([''F3''], None) \<and>
        display (mdl s) = [''? A'', ''> F1F2'', ''? B''])"
  by (simp add: eval_defs abandoned_def)

subsection \<open>Indices stay in range\<close>

lemma inRange_init: "inRange (init ps cs)"
  by (simp add: inRange_def init_def initialModel_def)

lemma inRange_step:
  assumes "inRange s" and "step ev s = Inr s'"
  shows "inRange s'"
  using assms(2)
proof (cases rule: step_cases)
  case idle
  with assms(1) show ?thesis by simp
next
  case (enter cs)
  from step_Enter[OF enter(2), of cs] assms(2) enter(1)
  have "chans s' = chans s @ [pushed cs]"
    and "cmds s' = cmds s @ [(length (chans s), int (length (display (mdl s))) + 1)]"
    and "msgs s' = msgs s"
    and "next (mdl s') = ReadPart (length (chans s)) (int (length (display (mdl s))) + 1)"
    and "length (display (mdl s')) = length (display (mdl s)) + 1"
    by auto
  with assms(1) show ?thesis by (auto simp add: inRange_def list_all_iff)
next
  case ui
  from step_ui[OF assms(2) ui] assms(1) show ?thesis
    by (simp add: inRange_def split: cmd.splits)
next
  case (recv k)
  from step_Recv[OF assms(2)[unfolded recv(1)] recv(2)]
  show ?thesis
  proof (elim disjE exE conjE)
    assume "s' = s"
    with assms(1) show ?thesis by simp
  next
    fix c i p ps r
    assume k: "k < length (cmds s)" and c: "cmds s ! k = (c, i)"
      and s': "s' = s\<lparr>chans := (chans s)[c := (ps, r)], cmds := remove_nth k (cmds s),
                      msgs := msgs s @ [(i, p)]\<rparr>"
    from k c have "(c, i) \<in> set (cmds s)" by (metis nth_mem)
    with assms(1) have "0 \<le> i \<and> i \<le> int (length (display (mdl s)))"
      by (auto simp add: inRange_def list_all_iff)
    with assms(1) list_all_remove_nth[of _ "cmds s" k] show ?thesis
      by (simp add: inRange_def s' split: cmd.splits)
  next
    fix c i
    assume "s' = s\<lparr>cmds := remove_nth k (cmds s)\<rparr>"
    with assms(1) list_all_remove_nth[of _ "cmds s" k] show ?thesis
      by (simp add: inRange_def split: cmd.splits)
  qed
next
  case (handle k)
  from step_Handle[OF assms(2)[unfolded handle(1)] handle(2)]
  show ?thesis
  proof (elim disjE exE conjE)
    assume "s' = s"
    with assms(1) show ?thesis by simp
  next
    fix i p
    assume "chans s' = chans s" and "msgs s' = remove_nth k (msgs s)"
      and "cmds s' = cmds s @ (case next (mdl s) of ReadPart c j \<Rightarrow> [(c, j)] | _ \<Rightarrow> [])"
      and "next (mdl s') = next (mdl s)"
      and d: "display (mdl s') =
              (if i = int (length (display (mdl s)))
               then display (mdl s) @ [chatStyle (mdl s) ''> '' @ p]
               else (display (mdl s))[nat i := display (mdl s) ! nat i @ p])"
    moreover from d have "length (display (mdl s)) \<le> length (display (mdl s'))" by simp
    ultimately show ?thesis
      using assms(1)
      by (fastforce simp add: inRange_def list_all_iff split: cmd.splits
          dest: in_set_remove_nth)
  qed
qed

lemma inRange_run:
  assumes "inRange s" and "run evs s = Inr s'"
  shows "inRange s'"
  using assms
proof (induction evs arbitrary: s)
  case Nil
  then show ?case by simp
next
  case (Cons ev evs)
  from Cons.prems(2) obtain s1 where s1: "step ev s = Inr s1" and r: "run evs s1 = Inr s'"
    by (auto split: sum.splits)
  from Cons.IH[OF inRange_step[OF Cons.prems(1) s1] r] show ?case .
qed

text \<open>
  From the initial state, the event loop never panics: a run can only end in the panic of
  a producer goroutine.
\<close>

lemma handle_never_panics:
  assumes "inRange s"
  shows "\<exists>s'. step (Handle k) s = Inr s'"
proof (cases "\<not> quit s \<and> k < length (msgs s)")
  case False
  then show ?thesis by (auto simp add: step_def handle_def)
next
  case True
  obtain i p where ip: "msgs s ! k = (i, p)" by (cases "msgs s ! k")
  with True have "(i, p) \<in> set (msgs s)" by (metis nth_mem)
  with assms have "0 \<le> i" "i \<le> int (length (display (mdl s)))"
    by (auto simp add: inRange_def list_all_iff)
  with True ip show ?thesis by (auto intro: step_Handle_ok)
qed

subsection \<open>A stream that nothing interrupts\<close>

lemma readLoop_extends:
  assumes "\<not> quit s" and "cmds s = [(ch, i)]" and "msgs s = []"
    and "next (mdl s) = ReadPart ch i" and "ch < length (chans s)"
    and "chans s ! ch = (fs, None)" and "0 \<le> i" and "nat i < length (display (mdl s))"
  shows "\<exists>s'. run (readLoop (length fs)) s = Inr s' \<and> cmds s' = [] \<and> msgs s' = [] \<and>
           \<not> quit s' \<and> history (mdl s') = history (mdl s) \<and>
           display (mdl s') = (display (mdl s))[nat i := display (mdl s) ! nat i @ concat fs]"
  using assms
proof (induction fs arbitrary: s)
  case Nil
  from step_Recv_closed[OF Nil(1) _ _ Nil(5) Nil(6), of 0 i] Nil(2)
  have "step (Recv 0) s = Inr (s\<lparr>cmds := remove_nth 0 (cmds s)\<rparr>)" by simp
  with Nil(1,2,3) show ?case by (simp add: remove_nth_def)
next
  case (Cons f fs)
  let ?s1 = "s\<lparr>chans := (chans s)[ch := (fs, None)], cmds := remove_nth 0 (cmds s),
               msgs := msgs s @ [(i, f)]\<rparr>"
  from step_Recv_part[OF Cons.prems(1) _ _ Cons.prems(5) Cons.prems(6), of 0 i] Cons.prems(2)
  have r1: "step (Recv 0) s = Inr ?s1" by simp
  have q1: "\<not> quit ?s1" and m1: "msgs ?s1 = [(i, f)]" and c1: "cmds ?s1 = []"
    using Cons.prems(1,2,3) by (simp_all add: remove_nth_def)
  from Cons.prems(7,8) have i1: "i \<le> int (length (display (mdl ?s1)))" by simp
  from step_Handle_ok[OF q1 _ _ Cons.prems(7) i1, of 0 f] m1
  obtain s2 where r2: "step (Handle 0) ?s1 = Inr s2" by auto
  from step_Handle[OF r2 q1] m1 c1 Cons.prems(4,8)
  have s2: "chans s2 = (chans s)[ch := (fs, None)]" "msgs s2 = []" "cmds s2 = [(ch, i)]"
    "\<not> quit s2" "next (mdl s2) = ReadPart ch i" "history (mdl s2) = history (mdl s)"
    "display (mdl s2) = (display (mdl s))[nat i := display (mdl s) ! nat i @ f]"
    by (auto simp add: remove_nth_def)
  from s2(1) Cons.prems(5) have ch2: "ch < length (chans s2)" "chans s2 ! ch = (fs, None)"
    by simp_all
  from s2(7) Cons.prems(8) have l2: "nat i < length (display (mdl s2))" by simp
  from Cons.IH[OF s2(4) s2(3) s2(2) s2(5) ch2 Cons.prems(7) l2]
  obtain s' where "run (readLoop (length fs)) s2 = Inr s'" "cmds s' = []" "msgs s' = []"
    "\<not> quit s'" "history (mdl s') = history (mdl s2)"
    "display (mdl s') = (display (mdl s2))[nat i := display (mdl s2) ! nat i @ concat fs]"
    by blast
  with r1 r2 s2(6,7) Cons.prems(8) show ?case by simp
qed

text \<open>
  Claim C1, as the code has it. Start from a state with no running command and no
  waiting message, submit a prompt whose stream makes the producer push the parts
  \<open>fs\<close> and close, and let nothing interrupt the stream. The run does not panic and
  ends with no running command; the transcript has gained the prompt entry and, when
  there is at least one part, one assistant entry: the rendered \<open>> \<close> followed by the
  parts in order. With no part at all, no assistant entry is created.
\<close>

theorem uninterrupted_stream_ordering:
  assumes "\<not> quit s" and "cmds s = []" and "msgs s = []" and "pushed cs = (fs, None)"
  shows "\<exists>s'. run (Key KeyEnter cs # readLoop (length fs)) s = Inr s' \<and>
           cmds s' = [] \<and> msgs s' = [] \<and>
           display (mdl s') =
             display (mdl s) @
             [chatStyle (mdl s) ''? '' @ promptStyle (mdl s) (taValue (textarea (mdl s)))] @
             (if fs = [] then [] else [chatStyle (mdl s) ''> '' @ concat fs])"
proof -
  let ?ch = "length (chans s)" and ?i = "int (length (display (mdl s))) + 1"
  let ?u = "chatStyle (mdl s) ''? '' @ promptStyle (mdl s) (taValue (textarea (mdl s)))"
  from step_Enter[OF assms(1), of cs] assms(2,3,4)
  obtain s0 where e: "step (Key KeyEnter cs) s = Inr s0" and q0: "\<not> quit s0"
    and ch0: "chans s0 = chans s @ [(fs, None)]" and c0: "cmds s0 = [(?ch, ?i)]"
    and m0: "msgs s0 = []" and n0: "next (mdl s0) = ReadPart ?ch ?i"
    and d0: "display (mdl s0) = display (mdl s) @ [?u]"
    and st0: "chatStyle (mdl s0) = chatStyle (mdl s)"
    by auto
  have lt: "?ch < length (chans s0)" and at: "chans s0 ! ?ch = (fs, None)"
    by (simp_all add: ch0)
  show ?thesis
  proof (cases fs)
    case Nil
    from step_Recv_closed[OF q0 _ _ lt, of 0 ?i] c0 at Nil
    have "step (Recv 0) s0 = Inr (s0\<lparr>cmds := remove_nth 0 (cmds s0)\<rparr>)" by simp
    with e Nil c0 m0 d0 show ?thesis by (simp add: remove_nth_def)
  next
    case (Cons f fs')
    let ?s1 = "s0\<lparr>chans := (chans s0)[?ch := (fs', None)], cmds := remove_nth 0 (cmds s0),
                 msgs := msgs s0 @ [(?i, f)]\<rparr>"
    from step_Recv_part[OF q0 _ _ lt, of 0 ?i f fs' None] c0 at Cons
    have r1: "step (Recv 0) s0 = Inr ?s1" by simp
    have q1: "\<not> quit ?s1" and m1: "msgs ?s1 = [(?i, f)]" and c1: "cmds ?s1 = []"
      using q0 c0 m0 by (simp_all add: remove_nth_def)
    have i0: "0 \<le> ?i" by simp
    have i1: "?i \<le> int (length (display (mdl ?s1)))" by (simp add: d0)
    from step_Handle_ok[OF q1 _ _ i0 i1, of 0 f] m1
    obtain s2 where r2: "step (Handle 0) ?s1 = Inr s2" by auto
    from step_Handle[OF r2 q1] m1 c1 n0 d0 st0
    have s2: "chans s2 = (chans s0)[?ch := (fs', None)]" "msgs s2 = []" "cmds s2 = [(?ch, ?i)]"
      "\<not> quit s2" "next (mdl s2) = ReadPart ?ch ?i"
      "display (mdl s2) = display (mdl s) @ [?u, chatStyle (mdl s) ''> '' @ f]"
      by (auto simp add: remove_nth_def)
    from s2(1) lt have ch2: "?ch < length (chans s2)" "chans s2 ! ?ch = (fs', None)"
      by simp_all
    from s2(6) have l2: "nat ?i < length (display (mdl s2))" by simp
    from readLoop_extends[OF s2(4) s2(3) s2(2) s2(5) ch2 i0 l2]
    obtain s' where "run (readLoop (length fs')) s2 = Inr s'" "cmds s' = []" "msgs s' = []"
      "display (mdl s') = (display (mdl s2))[nat ?i := display (mdl s2) ! nat ?i @ concat fs']"
      by blast
    moreover have "nat ?i = Suc (length (display (mdl s)))" by simp
    ultimately show ?thesis using e r1 r2 s2(6) Cons
      by (simp add: nth_append list_update_append)
  qed
qed

text \<open>The prompt 2+2? answered with the chunks 4, nil and !.\<close>

theorem uninterrupted_stream_ordering_witness:
  "\<not> quit (typed ''2+2?'') \<and> cmds (typed ''2+2?'') = [] \<and> msgs (typed ''2+2?'') = [] \<and>
   pushed [textChunk ''4'', None, textChunk ''!''] = ([''4'', ''!''], None) \<and>
   (\<exists>s'. run (Key KeyEnter [textChunk ''4'', None, textChunk ''!''] # readLoop 2) (typed ''2+2?'') = Inr s' \<and>
      cmds s' = [] \<and> msgs s' = [] \<and> display (mdl s') = [''? 2+2?'', ''> 4!''])"
  using uninterrupted_stream_ordering[of "typed ''2+2?''" "[textChunk ''4'', None, textChunk ''!'']" "[''4'', ''!'']"]
  by (simp add: eval_defs numeral_2_eq_2)

text \<open>
  Claim C1 as stated fails for a stream of no fragments: the channel is closed at the
  first receive, the transcript consists of the prompt entry alone, and the index that
  the stream targets, 1, holds no entry.
\<close>

theorem empty_stream_counterexample:
  "(case run [Key KeyEnter [], Recv 0] (typed ''hi'') of
      Inl e \<Rightarrow> False
    | Inr s \<Rightarrow> next (mdl s) = ReadPart 0 1 \<and> cmds s = [] \<and> msgs s = [] \<and>
        display (mdl s) = [''? hi''])"
  by (simp add: eval_defs)

section \<open>Supersession: the newest stream owns its entry\<close>

lemma reachable_inRange:
  assumes "run evs (init ps cs) = Inr s"
  shows "inRange s"
  using inRange_run[OF inRange_init assms] .

lemma ownedI:
  assumes "\<And>ch i. (ch, i) \<in> set (cmds s) \<Longrightarrow> 0 \<le> i \<and> (if ch = chB then i = iB else i < iB)"
    and "\<And>i p. (i, p) \<in> set (msgs s) \<Longrightarrow> 0 \<le> i \<and> i \<le> iB \<and> (i < iB \<or> p \<in> P)"
    and "next (mdl s) = ReadPart chB iB" and "chB < length (chans s)"
    and "set (fst (chans s ! chB)) \<subseteq> P"
    and "int (length (display (mdl s))) = iB \<or>
       (int (length (display (mdl s))) = iB + 1 \<and>
        (\<exists>gs. gs \<noteq> [] \<and> set gs \<subseteq> P \<and>
           display (mdl s) ! nat iB = chatStyle (mdl s) ''> '' @ concat gs))"
  shows "owned chB iB P s"
  using assms unfolding owned_def list_all_iff by auto

lemma ownedD:
  assumes "owned chB iB P s"
  shows "\<And>ch i. (ch, i) \<in> set (cmds s) \<Longrightarrow> 0 \<le> i \<and> (if ch = chB then i = iB else i < iB)"
    and "\<And>i p. (i, p) \<in> set (msgs s) \<Longrightarrow> 0 \<le> i \<and> i \<le> iB \<and> (i < iB \<or> p \<in> P)"
    and "next (mdl s) = ReadPart chB iB" and "chB < length (chans s)"
    and "set (fst (chans s ! chB)) \<subseteq> P"
    and "int (length (display (mdl s))) = iB \<or>
       (int (length (display (mdl s))) = iB + 1 \<and>
        (\<exists>gs. gs \<noteq> [] \<and> set gs \<subseteq> P \<and>
           display (mdl s) ! nat iB = chatStyle (mdl s) ''> '' @ concat gs))"
  using assms unfolding owned_def list_all_iff by auto

lemma owned_ui:
  assumes "owned chB iB P s" and "chans s' = chans s" and "msgs s' = msgs s"
    and "cmds s' = cmds s" and "display (mdl s') = display (mdl s)"
    and "next (mdl s') = next (mdl s)" and "chatStyle (mdl s') = chatStyle (mdl s)"
  shows "owned chB iB P s'"
  using assms(1) unfolding owned_def assms(2-7) .

lemma owned_recv_part:
  assumes o: "owned chB iB P s" and k: "k < length (cmds s)" and c: "cmds s ! k = (c, i)"
    and lt: "c < length (chans s)" and ch: "chans s ! c = (p # ps, r)"
  shows "owned chB iB P (s\<lparr>chans := (chans s)[c := (ps, r)], cmds := remove_nth k (cmds s),
                      msgs := msgs s @ [(i, p)]\<rparr>)" (is "owned chB iB P ?s'")
proof -
  note o = ownedD[OF o]
  from k c have mem: "(c, i) \<in> set (cmds s)" by (metis nth_mem)
  note ci = o(1)[OF mem]
  have new: "0 \<le> i \<and> i \<le> iB \<and> (i < iB \<or> p \<in> P)"
  proof (cases "c = chB")
    case True
    with ch o(5) have "p \<in> P" by auto
    with ci True show ?thesis by simp
  next
    case False
    with ci show ?thesis by simp
  qed
  have rest: "set (fst ((chans s)[c := (ps, r)] ! chB)) \<subseteq> P"
  proof (cases "c = chB")
    case True
    with ch o(5) lt show ?thesis by auto
  next
    case False
    with o(5) show ?thesis by simp
  qed
  show ?thesis
  proof (rule ownedI)
    fix ch j assume "(ch, j) \<in> set (cmds ?s')"
    then have "(ch, j) \<in> set (cmds s)" by (auto dest: in_set_remove_nth)
    then show "0 \<le> j \<and> (if ch = chB then j = iB else j < iB)" by (rule o(1))
  next
    fix j q assume "(j, q) \<in> set (msgs ?s')"
    then have "(j, q) \<in> set (msgs s) \<or> (j, q) = (i, p)" by auto
    then show "0 \<le> j \<and> j \<le> iB \<and> (j < iB \<or> q \<in> P)"
    proof
      assume "(j, q) \<in> set (msgs s)"
      then show ?thesis by (rule o(2))
    next
      assume "(j, q) = (i, p)"
      with new show ?thesis by simp
    qed
  next
    show "next (mdl ?s') = ReadPart chB iB" using o(3) by simp
    show "chB < length (chans ?s')" using o(4) by simp
    show "set (fst (chans ?s' ! chB)) \<subseteq> P" using rest by simp
    show "int (length (display (mdl ?s'))) = iB \<or>
       (int (length (display (mdl ?s'))) = iB + 1 \<and>
        (\<exists>gs. gs \<noteq> [] \<and> set gs \<subseteq> P \<and>
           display (mdl ?s') ! nat iB = chatStyle (mdl ?s') ''> '' @ concat gs))"
      using o(6) by simp
  qed
qed

lemma owned_recv_closed:
  assumes o: "owned chB iB P s"
  shows "owned chB iB P (s\<lparr>cmds := remove_nth k (cmds s)\<rparr>)" (is "owned chB iB P ?s'")
proof -
  note o = ownedD[OF o]
  show ?thesis
  proof (rule ownedI)
    fix ch j assume "(ch, j) \<in> set (cmds ?s')"
    then have "(ch, j) \<in> set (cmds s)" by (auto dest: in_set_remove_nth)
    then show "0 \<le> j \<and> (if ch = chB then j = iB else j < iB)" by (rule o(1))
  next
    fix j q assume "(j, q) \<in> set (msgs ?s')"
    then have "(j, q) \<in> set (msgs s)" by simp
    then show "0 \<le> j \<and> j \<le> iB \<and> (j < iB \<or> q \<in> P)" by (rule o(2))
  next
    show "next (mdl ?s') = ReadPart chB iB" using o(3) by simp
    show "chB < length (chans ?s')" using o(4) by simp
    show "set (fst (chans ?s' ! chB)) \<subseteq> P" using o(5) by simp
    show "int (length (display (mdl ?s'))) = iB \<or>
       (int (length (display (mdl ?s'))) = iB + 1 \<and>
        (\<exists>gs. gs \<noteq> [] \<and> set gs \<subseteq> P \<and>
           display (mdl ?s') ! nat iB = chatStyle (mdl ?s') ''> '' @ concat gs))"
      using o(6) by simp
  qed
qed

lemma owned_handle:
  assumes o: "owned chB iB P s" and k: "k < length (msgs s)" and m: "msgs s ! k = (i, p)"
    and chn: "chans s' = chans s" and ms: "msgs s' = remove_nth k (msgs s)"
    and cs: "cmds s' = cmds s @ (case next (mdl s) of ReadPart c j \<Rightarrow> [(c, j)] | _ \<Rightarrow> [])"
    and nx: "next (mdl s') = next (mdl s)" and st: "chatStyle (mdl s') = chatStyle (mdl s)"
    and d: "display (mdl s') =
              (if i = int (length (display (mdl s)))
               then display (mdl s) @ [chatStyle (mdl s) ''> '' @ p]
               else (display (mdl s))[nat i := display (mdl s) ! nat i @ p])"
  shows "owned chB iB P s'"
proof -
  let ?d = "display (mdl s)" and ?st = "chatStyle (mdl s)"
  note o = ownedD[OF o]
  from k m have "(i, p) \<in> set (msgs s)" by (metis nth_mem)
  from o(2)[OF this] have i: "0 \<le> i" "i \<le> iB" "i < iB \<or> p \<in> P" by simp_all
  have disp: "int (length (display (mdl s'))) = iB \<or>
       (int (length (display (mdl s'))) = iB + 1 \<and>
        (\<exists>gs. gs \<noteq> [] \<and> set gs \<subseteq> P \<and>
           display (mdl s') ! nat iB = chatStyle (mdl s') ''> '' @ concat gs))"
    using o(6)
  proof
    assume len: "int (length ?d) = iB"
    show ?thesis
    proof (cases "i = iB")
      case True
      with i(3) have pP: "p \<in> P" by simp
      from True len d have d': "display (mdl s') = ?d @ [?st ''> '' @ p]" by simp
      from len have n: "nat iB = length ?d" by simp
      have "display (mdl s') ! nat iB = ?st ''> '' @ concat [p]"
        by (simp add: d' n)
      moreover have "[p] \<noteq> []" "set [p] \<subseteq> P" using pP by simp_all
      ultimately have "\<exists>gs. gs \<noteq> [] \<and> set gs \<subseteq> P \<and>
           display (mdl s') ! nat iB = chatStyle (mdl s') ''> '' @ concat gs"
        unfolding st by blast
      moreover from d' len have "int (length (display (mdl s'))) = iB + 1" by simp
      ultimately show ?thesis by blast
    next
      case False
      with len d have "length (display (mdl s')) = length ?d" by simp
      with len show ?thesis by simp
    qed
  next
    assume "int (length ?d) = iB + 1 \<and>
        (\<exists>gs. gs \<noteq> [] \<and> set gs \<subseteq> P \<and> ?d ! nat iB = ?st ''> '' @ concat gs)"
    then obtain gs where len: "int (length ?d) = iB + 1" and gs: "gs \<noteq> []" "set gs \<subseteq> P"
      and e: "?d ! nat iB = ?st ''> '' @ concat gs" by blast
    from len i(2) have ne: "i \<noteq> int (length ?d)" by simp
    with d have d': "display (mdl s') = ?d[nat i := ?d ! nat i @ p]" by simp
    from len i(1) i(2) have lt: "nat iB < length ?d" by simp
    have "\<exists>gs. gs \<noteq> [] \<and> set gs \<subseteq> P \<and>
           display (mdl s') ! nat iB = ?st ''> '' @ concat gs"
    proof (cases "i = iB")
      case True
      with i(3) have pP: "p \<in> P" by simp
      from True lt have "display (mdl s') ! nat iB = ?st ''> '' @ concat (gs @ [p])"
        by (simp add: d' e)
      moreover have "gs @ [p] \<noteq> []" "set (gs @ [p]) \<subseteq> P" using gs pP by simp_all
      ultimately show ?thesis by blast
    next
      case False
      with i(1) i(2) have "nat i \<noteq> nat iB" by simp
      then have "display (mdl s') ! nat iB = ?d ! nat iB" by (simp add: d')
      with e gs show ?thesis by auto
    qed
    moreover from d' len have "int (length (display (mdl s'))) = iB + 1" by simp
    ultimately show ?thesis unfolding st by blast
  qed
  show ?thesis
  proof (rule ownedI)
    fix ch j assume "(ch, j) \<in> set (cmds s')"
    then have "(ch, j) \<in> set (cmds s) \<or> (ch, j) = (chB, iB)"
      by (auto simp add: cs o(3))
    then show "0 \<le> j \<and> (if ch = chB then j = iB else j < iB)"
    proof
      assume "(ch, j) \<in> set (cmds s)"
      then show ?thesis by (rule o(1))
    next
      assume "(ch, j) = (chB, iB)"
      with i(1) i(2) show ?thesis by simp
    qed
  next
    fix j q assume "(j, q) \<in> set (msgs s')"
    then have "(j, q) \<in> set (msgs s)" by (auto simp add: ms dest: in_set_remove_nth)
    then show "0 \<le> j \<and> j \<le> iB \<and> (j < iB \<or> q \<in> P)" by (rule o(2))
  next
    show "next (mdl s') = ReadPart chB iB" using o(3) by (simp add: nx)
    show "chB < length (chans s')" using o(4) by (simp add: chn)
    show "set (fst (chans s' ! chB)) \<subseteq> P" using o(5) by (simp add: chn)
    show "int (length (display (mdl s'))) = iB \<or>
       (int (length (display (mdl s'))) = iB + 1 \<and>
        (\<exists>gs. gs \<noteq> [] \<and> set gs \<subseteq> P \<and>
           display (mdl s') ! nat iB = chatStyle (mdl s') ''> '' @ concat gs))"
      by (rule disp)
  qed
qed

lemma owned_step:
  assumes "owned chB iB P s" and "\<not> isEnter ev" and "step ev s = Inr s'"
  shows "owned chB iB P s' \<and> chatStyle (mdl s') = chatStyle (mdl s)"
  using assms(3)
proof (cases rule: step_cases)
  case idle
  with assms(1) show ?thesis by simp
next
  case (enter cs)
  with assms(2) show ?thesis by simp
next
  case ui
  note f = step_ui[OF assms(3) ui]
  from owned_ui[OF assms(1) f(1) f(2) f(3) f(4) f(6) f(7)] f(7) show ?thesis by simp
next
  case (recv k)
  from step_Recv[OF assms(3)[unfolded recv(1)] recv(2)]
  show ?thesis
  proof (elim disjE exE conjE)
    assume "s' = s"
    with assms(1) show ?thesis by simp
  next
    fix c i p ps r
    assume k: "k < length (cmds s)" and c: "cmds s ! k = (c, i)" and lt: "c < length (chans s)"
      and ch: "chans s ! c = (p # ps, r)"
      and s': "s' = s\<lparr>chans := (chans s)[c := (ps, r)], cmds := remove_nth k (cmds s),
                      msgs := msgs s @ [(i, p)]\<rparr>"
    from owned_recv_part[OF assms(1) k c lt ch] show ?thesis by (simp add: s')
  next
    fix c i
    assume s': "s' = s\<lparr>cmds := remove_nth k (cmds s)\<rparr>"
    from owned_recv_closed[OF assms(1), of k] show ?thesis by (simp add: s')
  qed
next
  case (handle k)
  from step_Handle[OF assms(3)[unfolded handle(1)] handle(2)]
  show ?thesis
  proof (elim disjE exE conjE)
    assume "s' = s"
    with assms(1) show ?thesis by simp
  next
    fix i p
    assume k: "k < length (msgs s)" and m: "msgs s ! k = (i, p)"
      and chn: "chans s' = chans s" and ms: "msgs s' = remove_nth k (msgs s)"
      and cs: "cmds s' = cmds s @ (case next (mdl s) of ReadPart c j \<Rightarrow> [(c, j)] | _ \<Rightarrow> [])"
      and nx: "next (mdl s') = next (mdl s)" and st: "chatStyle (mdl s') = chatStyle (mdl s)"
      and d: "display (mdl s') =
              (if i = int (length (display (mdl s)))
               then display (mdl s) @ [chatStyle (mdl s) ''> '' @ p]
               else (display (mdl s))[nat i := display (mdl s) ! nat i @ p])"
    from owned_handle[OF assms(1) k m chn ms cs nx st d] st show ?thesis by simp
  qed
qed

lemma owned_run:
  assumes "owned chB iB P s" and "list_all (\<lambda>ev. \<not> isEnter ev) evs" and "run evs s = Inr s'"
  shows "owned chB iB P s' \<and> chatStyle (mdl s') = chatStyle (mdl s)"
  using assms
proof (induction evs arbitrary: s)
  case Nil
  then show ?case by simp
next
  case (Cons ev evs)
  from Cons.prems(3) obtain s1 where s1: "step ev s = Inr s1" and r: "run evs s1 = Inr s'"
    by (auto split: sum.splits)
  from Cons.prems(2) have ne: "\<not> isEnter ev" and rest: "list_all (\<lambda>ev. \<not> isEnter ev) evs"
    by simp_all
  from owned_step[OF Cons.prems(1) ne s1]
  have o1: "owned chB iB P s1" and c1: "chatStyle (mdl s1) = chatStyle (mdl s)" by simp_all
  from Cons.IH[OF o1 rest r] c1 show ?case by simp
qed

lemma owned_after_Enter:
  assumes "inRange s" and "\<not> quit s" and "step (Key KeyEnter csB) s = Inr s0"
  shows "owned (length (chans s)) (int (length (display (mdl s))) + 1)
           (set (fst (pushed csB))) s0 \<and> chatStyle (mdl s0) = chatStyle (mdl s)"
proof -
  let ?chB = "length (chans s)" and ?iB = "int (length (display (mdl s))) + 1"
  let ?P = "set (fst (pushed csB))"
  from step_Enter[OF assms(2), of csB] assms(3)
  have ch0: "chans s0 = chans s @ [pushed csB]" and c0: "cmds s0 = cmds s @ [(?chB, ?iB)]"
    and m0: "msgs s0 = msgs s" and n0: "next (mdl s0) = ReadPart ?chB ?iB"
    and d0: "length (display (mdl s0)) = length (display (mdl s)) + 1"
    and st0: "chatStyle (mdl s0) = chatStyle (mdl s)"
    by auto
  have old: "ch < ?chB \<and> 0 \<le> i \<and> i < ?iB" if "(ch, i) \<in> set (cmds s)" for ch i
    using assms(1) that by (auto simp add: inRange_def list_all_iff)
  have oldm: "0 \<le> i \<and> i < ?iB" if "(i, p) \<in> set (msgs s)" for i p
    using assms(1) that by (auto simp add: inRange_def list_all_iff)
  have "owned ?chB ?iB ?P s0"
  proof (rule ownedI)
    fix ch i assume "(ch, i) \<in> set (cmds s0)"
    then have "(ch, i) \<in> set (cmds s) \<or> (ch, i) = (?chB, ?iB)" by (auto simp add: c0)
    then show "0 \<le> i \<and> (if ch = ?chB then i = ?iB else i < ?iB)"
    proof
      assume "(ch, i) \<in> set (cmds s)"
      from old[OF this] show ?thesis by simp
    next
      assume "(ch, i) = (?chB, ?iB)"
      then show ?thesis by simp
    qed
  next
    fix i p assume "(i, p) \<in> set (msgs s0)"
    then have "(i, p) \<in> set (msgs s)" by (simp add: m0)
    from oldm[OF this] show "0 \<le> i \<and> i \<le> ?iB \<and> (i < ?iB \<or> p \<in> ?P)" by simp
  next
    show "next (mdl s0) = ReadPart ?chB ?iB" by (rule n0)
    show "?chB < length (chans s0)" by (simp add: ch0)
    show "set (fst (chans s0 ! ?chB)) \<subseteq> ?P" by (simp add: ch0)
    show "int (length (display (mdl s0))) = ?iB \<or>
       (int (length (display (mdl s0))) = ?iB + 1 \<and>
        (\<exists>gs. gs \<noteq> [] \<and> set gs \<subseteq> ?P \<and>
           display (mdl s0) ! nat ?iB = chatStyle (mdl s0) ''> '' @ concat gs))"
      by (simp add: d0)
  qed
  with st0 show ?thesis by simp
qed

text \<open>
  Claim C3. Take any state in which the indices are in range (every state reached from the
  initial one is), with whatever streams still running and whatever fragments of them
  still to come, and submit prompt B. As long as no further prompt is submitted, either
  B's assistant entry does not exist yet (the transcript ends with B's prompt entry), or
  it is the rendered \<open>> \<close> followed by fragments that B's own producer pushed. A
  fragment of an older stream, such as F2, carries a smaller index and is never appended
  to B's entry, and the entry starts from the prefix alone.
\<close>

theorem superseding_entry_is_fresh:
  assumes "inRange s" and "\<not> quit s" and "list_all (\<lambda>ev. \<not> isEnter ev) evs"
    and "run (Key KeyEnter csB # evs) s = Inr s'"
  shows "length (display (mdl s')) = length (display (mdl s)) + 1 \<or>
         (length (display (mdl s')) = length (display (mdl s)) + 2 \<and>
          (\<exists>gs. gs \<noteq> [] \<and> set gs \<subseteq> set (fst (pushed csB)) \<and>
             display (mdl s') ! (length (display (mdl s)) + 1) =
               chatStyle (mdl s) ''> '' @ concat gs))"
proof -
  let ?chB = "length (chans s)" and ?iB = "int (length (display (mdl s))) + 1"
  let ?P = "set (fst (pushed csB))"
  from assms(4) obtain s0 where e: "step (Key KeyEnter csB) s = Inr s0"
    and r: "run evs s0 = Inr s'" by (auto split: sum.splits)
  from owned_after_Enter[OF assms(1,2) e]
  have o0: "owned ?chB ?iB ?P s0" and st0: "chatStyle (mdl s0) = chatStyle (mdl s)"
    by simp_all
  from owned_run[OF o0 assms(3) r] st0
  have o: "owned ?chB ?iB ?P s'" and st: "chatStyle (mdl s') = chatStyle (mdl s)"
    by simp_all
  have n: "nat ?iB = length (display (mdl s)) + 1" by simp
  from ownedD(6)[OF o] show ?thesis
  proof
    assume "int (length (display (mdl s'))) = ?iB"
    then have "length (display (mdl s')) = length (display (mdl s)) + 1" by simp
    then show ?thesis by (rule disjI1)
  next
    assume a: "int (length (display (mdl s'))) = ?iB + 1 \<and>
        (\<exists>gs. gs \<noteq> [] \<and> set gs \<subseteq> ?P \<and>
           display (mdl s') ! nat ?iB = chatStyle (mdl s') ''> '' @ concat gs)"
    then have "length (display (mdl s')) = length (display (mdl s)) + 2" by simp
    moreover from a have "\<exists>gs. gs \<noteq> [] \<and> set gs \<subseteq> ?P \<and>
           display (mdl s') ! (length (display (mdl s)) + 1) =
             chatStyle (mdl s) ''> '' @ concat gs"
      unfolding st n by blast
    ultimately show ?thesis by blast
  qed
qed

text \<open>
  Prompt A has delivered F1; B is typed and submitted; the stale F2 arrives and is handled,
  then B's first fragment.
\<close>

theorem superseding_entry_is_fresh_witness:
  "inRange (after [Key (KeyRunes ''A'') [], Key KeyEnter streamA, Recv 0, Handle 0,
                   Key (KeyRunes ''B'') []] initial) \<and>
   \<not> quit (after [Key (KeyRunes ''A'') [], Key KeyEnter streamA, Recv 0, Handle 0,
                   Key (KeyRunes ''B'') []] initial) \<and>
   list_all (\<lambda>ev. \<not> isEnter ev) [Recv 0, Handle 0, Recv 0, Handle 0] \<and>
   run (Key KeyEnter streamB # [Recv 0, Handle 0, Recv 0, Handle 0])
     (after [Key (KeyRunes ''A'') [], Key KeyEnter streamA, Recv 0, Handle 0,
             Key (KeyRunes ''B'') []] initial) =
   Inr (after (supersede @ [Recv 0, Handle 0, Recv 0, Handle 0]) initial) \<and>
   display (mdl (after (supersede @ [Recv 0, Handle 0, Recv 0, Handle 0]) initial)) =
     [''? A'', ''> F1F2'', ''? B'', ''> G1'']"
  using superseding_entry_is_fresh[of
      "after [Key (KeyRunes ''A'') [], Key KeyEnter streamA, Recv 0, Handle 0,
              Key (KeyRunes ''B'') []] initial"
      "[Recv 0, Handle 0, Recv 0, Handle 0]" streamB
      "after (supersede @ [Recv 0, Handle 0, Recv 0, Handle 0]) initial"]
  by (simp add: eval_defs inRange_def)

subsection \<open>The history\<close>

lemma history_step:
  assumes "step ev s = Inr s'"
  shows "history (mdl s') = history (mdl s) \<or>
         (\<exists>p. history (mdl s') = history (mdl s) @ [NewContentFromText p RoleUser])"
  using assms
proof (cases rule: step_cases)
  case idle
  then show ?thesis by simp
next
  case (enter cs)
  from step_Enter[OF enter(2), of cs] assms enter(1) show ?thesis by auto
next
  case ui
  from step_ui(5)[OF assms ui] show ?thesis by simp
next
  case (recv k)
  from step_Recv[OF assms[unfolded recv(1)] recv(2)] show ?thesis by auto
next
  case (handle k)
  from step_Handle[OF assms[unfolded handle(1)] handle(2)] show ?thesis by auto
qed

text \<open>
  Claim C9, as the code has it. \<open>keyEnter\<close> appends the prompt to the history and to
  the transcript. Handling a fragment leaves the history as it is, and over any list of
  events the history grows by user prompts only: the assistant reply is in the transcript
  and never in the history.
\<close>

theorem history_holds_prompts_only:
  "history (fst (keyEnter parts m)) =
     history m @ [NewContentFromText (taValue (textarea m)) RoleUser] \<and>
   display (fst (keyEnter parts m)) =
     display m @ [chatStyle m ''? '' @ promptStyle m (taValue (textarea m))] \<and>
   (\<forall>m' c. streamMsg i p m = Inr (m', c) \<longrightarrow> history m' = history m) \<and>
   (run evs s = Inr s' \<longrightarrow>
      (\<exists>ps. history (mdl s') = history (mdl s) @ map (\<lambda>p. NewContentFromText p RoleUser) ps))"
proof (intro conjI allI impI)
  obtain m' c where ke: "keyEnter parts m = (m', c)" by (cases "keyEnter parts m")
  from keyEnter_eq(3)[OF ke] ke
  show "history (fst (keyEnter parts m)) =
     history m @ [NewContentFromText (taValue (textarea m)) RoleUser]" by simp
  from keyEnter_eq(4)[OF ke] ke
  show "display (fst (keyEnter parts m)) =
     display m @ [chatStyle m ''? '' @ promptStyle m (taValue (textarea m))]" by simp
next
  fix m' c assume "streamMsg i p m = Inr (m', c)"
  then show "history m' = history m" by (rule streamMsg_Inr(5))
next
  assume "run evs s = Inr s'"
  then show "\<exists>ps. history (mdl s') =
      history (mdl s) @ map (\<lambda>p. NewContentFromText p RoleUser) ps"
  proof (induction evs arbitrary: s)
    case Nil
    then have "history (mdl s') = history (mdl s) @ map (\<lambda>p. NewContentFromText p RoleUser) []"
      by simp
    then show ?case by blast
  next
    case (Cons ev evs)
    from Cons.prems obtain s1 where s1: "step ev s = Inr s1" and r: "run evs s1 = Inr s'"
      by (auto split: sum.splits)
    from Cons.IH[OF r] obtain ps where
      ps: "history (mdl s') = history (mdl s1) @ map (\<lambda>p. NewContentFromText p RoleUser) ps"
      by blast
    from history_step[OF s1] show ?case
    proof
      assume "history (mdl s1) = history (mdl s)"
      with ps show ?thesis by auto
    next
      assume "\<exists>p. history (mdl s1) = history (mdl s) @ [NewContentFromText p RoleUser]"
      then obtain p where "history (mdl s1) = history (mdl s) @ [NewContentFromText p RoleUser]"
        by blast
      with ps have "history (mdl s') =
          history (mdl s) @ map (\<lambda>p. NewContentFromText p RoleUser) (p # ps)" by simp
      then show ?thesis by blast
    qed
  qed
qed

text \<open>The prompt 2+2? answered with the single fragment 4.\<close>

theorem history_holds_prompts_only_witness:
  "run (Key KeyEnter [textChunk ''4''] # readLoop 1) (typed ''2+2?'') =
     Inr (after (Key KeyEnter [textChunk ''4''] # readLoop 1) (typed ''2+2?'')) \<and>
   streamMsg 1 ''4'' (mdl (after [Key KeyEnter [textChunk ''4'']] (typed ''2+2?''))) =
     Inr (mdl (after [Key KeyEnter [textChunk ''4''], Recv 0, Handle 0] (typed ''2+2?'')),
          ReadPart 0 1) \<and>
   history (mdl (after (Key KeyEnter [textChunk ''4''] # readLoop 1) (typed ''2+2?''))) =
     [NewContentFromText ''2+2?'' RoleUser] \<and>
   display (mdl (after (Key KeyEnter [textChunk ''4''] # readLoop 1) (typed ''2+2?''))) =
     [''? 2+2?'', ''> 4'']"
  using history_holds_prompts_only[of 0 "mdl (typed ''2+2?'')" 1 "''4''"
      "Key KeyEnter [textChunk ''4''] # readLoop 1" "typed ''2+2?''"
      "after (Key KeyEnter [textChunk ''4''] # readLoop 1) (typed ''2+2?'')"]
  by (simp add: eval_defs)

text \<open>
  Claim C9 as stated fails: after the stream for 2+2? has completed, the transcript holds
  the reply and the history holds the prompt alone.
\<close>

theorem reply_missing_from_history_counterexample:
  "(case run (Key KeyEnter [textChunk ''4''] # readLoop 1) (typed ''2+2?'') of
      Inl e \<Rightarrow> False
    | Inr s \<Rightarrow> cmds s = [] \<and> msgs s = [] \<and> display (mdl s) = [''? 2+2?'', ''> 4''] \<and>
        history (mdl s) = [NewContentFromText ''2+2?'' RoleUser])"
  by (simp add: eval_defs)

subsection \<open>Failing and malformed chunks\<close>

lemma pushed_skips_nil: "pushed (cs @ None # cs') = pushed (cs @ cs')"
proof (induction cs)
  case Nil
  show ?case by simp
next
  case (Cons c cs)
  then show ?case by (cases c) (simp_all split: sum.splits)
qed

lemma step_Error: "step (Error e) s = Inr s"
  by (simp add: step_def dispatch_def Update_ErrMsg start_def)

text \<open>
  Claim C5, as the code has it. A failure of the remote call reaches the producer as a nil
  chunk beside an error that the loop discards: the stream goes on exactly as if the
  failing chunk were not there, so nothing is appended for it. An error message that
  reaches the event loop changes nothing either: the loop goes on, and what follows,
  including a new prompt, runs as it would have without it.
\<close>

theorem stream_failure_is_dropped:
  "pushed (cs @ None # cs') = pushed (cs @ cs') \<and> run (Error e # evs) s = run evs s"
  by (simp add: pushed_skips_nil step_Error)

text \<open>
  Claim C5 as stated fails: when the stream fails after the fragment Hi, the run ends with
  the transcript of the prompt and Hi, with no error entry, exactly as for a stream that
  ended after Hi without failing.
\<close>

theorem stream_failure_counterexample:
  "(case run (Key KeyEnter [textChunk ''Hi'', None] # readLoop 1) (typed ''q'') of
      Inl e \<Rightarrow> False
    | Inr s \<Rightarrow> cmds s = [] \<and> msgs s = [] \<and> \<not> quit s \<and> display (mdl s) = [''? q'', ''> Hi'']) \<and>
   run (Key KeyEnter [textChunk ''Hi'', None] # readLoop 1) (typed ''q'') =
   run (Key KeyEnter [textChunk ''Hi''] # readLoop 1) (typed ''q'')"
  by (simp add: eval_defs)

text \<open>A nil chunk between two chunks with text: the transcript reads Hi there.\<close>

lemma nil_chunk_is_skipped:
  "(case run (Key KeyEnter [textChunk ''Hi'', None, textChunk '' there''] # readLoop 2)
          (typed ''q'') of
      Inl e \<Rightarrow> False
    | Inr s \<Rightarrow> cmds s = [] \<and> msgs s = [] \<and> display (mdl s) = [''? q'', ''> Hi there''])"
  by (simp add: eval_defs numeral_2_eq_2)

text \<open>
  Claim C4 on the code: a chunk that is not nil and has no candidate (or a candidate whose
  content has no part) is not skipped. The producer panics on it after pushing Hi, and
  the run ends in that panic instead of delivering the last fragment.
\<close>

theorem chunk_without_candidates_panics:
  "pushed [textChunk ''Hi'', Some (GenerateContentResponse []), textChunk '' there''] =
     ([''Hi''], Some IndexOutOfRange) \<and>
   run (Key KeyEnter [textChunk ''Hi'', Some (GenerateContentResponse []), textChunk '' there'']
        # readLoop 2) (typed ''q'') = Inl IndexOutOfRange \<and>
   pushed [textChunk ''Hi'',
           Some (GenerateContentResponse [Some (Candidate (Some (Content [] RoleModel)))]),
           textChunk '' there''] = ([''Hi''], Some IndexOutOfRange)"
  by (simp add: eval_defs numeral_2_eq_2)

subsection \<open>Supersession\<close>

text \<open>
  Claim C2 on the code: when B is submitted, the command reading A's channel is still
  running beside the new one. It then receives F2 and returns it with A's index 1, and
  the event loop appends F2 to the entry at 1, after B's prompt has been processed.
\<close>

theorem stale_fragment_after_new_prompt:
  "(case run supersede initial of
      Inl e \<Rightarrow> False
    | Inr s \<Rightarrow> display (mdl s) = [''? A'', ''> F1'', ''? B''] \<and> next (mdl s) = ReadPart 1 3 \<and>
        cmds s = [(0, 1), (1, 3)] \<and> chans s = [([''F2'', ''F3''], None), ([''G1'', ''G2''], None)]) \<and>
   (case run (supersede @ [Recv 0]) initial of
      Inl e \<Rightarrow> False
    | Inr s \<Rightarrow> msgs s = [(1, ''F2'')]) \<and>
   (case run (supersede @ [Recv 0, Handle 0]) initial of
      Inl e \<Rightarrow> False
    | Inr s \<Rightarrow> display (mdl s) = [''? A'', ''> F1F2'', ''? B''])"
  by (simp add: eval_defs)

text \<open>
  Claim C6 on the code: after B is submitted two read commands are running, one per
  channel. Handling the stale fragment schedules \<open>next\<close> once more, so two commands
  then receive from B's channel, and B's fragments can reach the transcript out of order.
\<close>

theorem two_readers_after_supersession:
  "(case run supersede initial of
      Inl e \<Rightarrow> False
    | Inr s \<Rightarrow> cmds s = [(0, 1), (1, 3)]) \<and>
   (case run (supersede @ [Recv 0, Handle 0]) initial of
      Inl e \<Rightarrow> False
    | Inr s \<Rightarrow> cmds s = [(1, 3), (1, 3)]) \<and>
   (case run (supersede @ [Recv 0, Handle 0, Recv 0, Recv 0, Handle 1, Handle 0]) initial of
      Inl e \<Rightarrow> False
    | Inr s \<Rightarrow> display (mdl s) = [''? A'', ''> F1F2'', ''? B'', ''> G2G1''])"
  by (simp add: eval_defs)

text \<open>
  Claim C10 on the code: entries are never removed or reordered and only grow (lemma
  \<open>Update_append_only\<close>), but the entry that a fragment mutates is not always the
  trailing assistant entry. When B is submitted before A's first fragment arrives, A's
  fragment carries index 1, which is now B's prompt entry: the prompt of the user is
  extended with the text of the reply. When B is submitted after A's first fragment, the
  stale F2 extends A's entry at index 1 while the trailing entry is B's prompt.
\<close>

theorem stale_fragment_mutates_other_entry:
  "(case run [Key (KeyRunes ''A'') [], Key KeyEnter streamA,
              Key (KeyRunes ''B'') [], Key KeyEnter streamB] initial of
      Inl e \<Rightarrow> False
    | Inr s \<Rightarrow> display (mdl s) = [''? A'', ''? B''] \<and> cmds s = [(0, 1), (1, 2)]) \<and>
   (case run [Key (KeyRunes ''A'') [], Key KeyEnter streamA,
              Key (KeyRunes ''B'') [], Key KeyEnter streamB, Recv 0, Handle 0] initial of
      Inl e \<Rightarrow> False
    | Inr s \<Rightarrow> display (mdl s) = [''? A'', ''? BF1'']) \<and>
   (case run (supersede @ [Recv 0, Handle 0]) initial of
      Inl e \<Rightarrow> False
    | Inr s \<Rightarrow> display (mdl s) ! 1 = ''> F1F2'' \<and> last (display (mdl s)) = ''? B'')"
  by (simp add: eval_defs)

end
